theory Spec2Isabelle
  imports Main "HOL-Library.Word"
begin

unbundle bit_operations_syntax

section \<open>Data model\<close>

text \<open>
  The three C files each define \<^verbatim>\<open>uint32_t adler32_neon(const uint8_t *data, size_t len)\<close>:
  the byte-at-a-time engine (adler32_simple.c), the block-batched engine (adler32_block.c)
  and the vector engine (adler32_neon.c).  A buffer is a list of bytes and \<^verbatim>\<open>len\<close> is its
  length; indices and lengths are natural numbers (they never exceed the length of the
  buffer), the accumulators are 32-bit words whose \<open>+\<close> and \<open>*\<close> wrap around, and
  \<^verbatim>\<open>size_t\<close> arithmetic on values is 64-bit (the AArch64 target of the intrinsics).
\<close>

type_synonym u8 = "8 word"
type_synonym u16 = "16 word"
type_synonym u32 = "32 word"
type_synonym size_t = "64 word"

definition MOD_ADLER :: nat where
  "MOD_ADLER = 65521"

definition BLOCK_SIZE :: nat where
  "BLOCK_SIZE = 5552"

definition NEON_CHUNK_SIZE :: nat where
  "NEON_CHUNK_SIZE = 16"

text \<open>The returned value \<^verbatim>\<open>(s2 << 16) | s1\<close>.\<close>

definition pack :: "u32 \<Rightarrow> u32 \<Rightarrow> u32" where
  "pack s1 s2 = push_bit 16 s2 OR s1"

section \<open>Scalar engine (adler32_simple.c)\<close>

text \<open>
  \<^verbatim>\<open>while (i < len) { s1 = (s1 + data[i]) % MOD_ADLER; s2 = (s2 + s1) % MOD_ADLER; i++; }\<close>
  The same loop is the whole of the scalar engine, the short-input path of the block
  engine and the tail of the vector engine.
\<close>

function scalar_loop :: "u8 list \<Rightarrow> nat \<Rightarrow> nat \<Rightarrow> u32 \<times> u32 \<Rightarrow> u32 \<times> u32" where
  "scalar_loop data i len (s1, s2) =
     (if i < len then
        let s1' = (s1 + ucast (data ! i)) mod of_nat MOD_ADLER;
            s2' = (s2 + s1') mod of_nat MOD_ADLER
        in scalar_loop data (i + 1) len (s1', s2')
      else (s1, s2))"
  by pat_completeness auto
termination
  by (relation "measure (\<lambda>(data, i, len, s). len - i)") auto

definition adler32_simple :: "u8 list \<Rightarrow> u32" where
  "adler32_simple data =
     (let len = length data;
          (s1, s2) = scalar_loop data 0 len (1, 0)
      in pack s1 s2)"

section \<open>Block-batched engine (adler32_block.c)\<close>

text \<open>
  \<^verbatim>\<open>for (i = 0; i < n; ++i) { s1 += block_data[i]; s2 += s1; }\<close> with
  \<^verbatim>\<open>block_data = data + base\<close>: the additions are 32-bit and unreduced.
\<close>

function raw_loop :: "u8 list \<Rightarrow> nat \<Rightarrow> nat \<Rightarrow> nat \<Rightarrow> u32 \<times> u32 \<Rightarrow> u32 \<times> u32" where
  "raw_loop data base i n (s1, s2) =
     (if i < n then
        let s1' = s1 + ucast (data ! (base + i));
            s2' = s2 + s1'
        in raw_loop data base (i + 1) n (s1', s2')
      else (s1, s2))"
  by pat_completeness auto
termination
  by (relation "measure (\<lambda>(data, base, i, n, s). n - i)") auto

function block_loop :: "u8 list \<Rightarrow> nat \<Rightarrow> nat \<Rightarrow> u32 \<times> u32 \<Rightarrow> u32 \<times> u32" where
  "block_loop data block blocks (s1, s2) =
     (if block < blocks then
        let (s1', s2') = raw_loop data (block * BLOCK_SIZE) 0 BLOCK_SIZE (s1, s2)
        in block_loop data (block + 1) blocks
             (s1' mod of_nat MOD_ADLER, s2' mod of_nat MOD_ADLER)
      else (s1, s2))"
  by pat_completeness auto
termination
  by (relation "measure (\<lambda>(data, block, blocks, s). blocks - block)") auto

definition adler32_block :: "u8 list \<Rightarrow> u32" where
  "adler32_block data =
     (let len = length data in
      if len < 16 then
        (let (s1, s2) = scalar_loop data 0 len (1, 0) in pack s1 s2)
      else
        let blocks = len div BLOCK_SIZE;
            remaining = len mod BLOCK_SIZE;
            (s1, s2) = block_loop data 0 blocks (1, 0);
            (s1, s2) = raw_loop data (blocks * BLOCK_SIZE) 0 remaining (s1, s2)
        in pack (s1 mod of_nat MOD_ADLER) (s2 mod of_nat MOD_ADLER))"

section \<open>Vector engine (adler32_neon.c)\<close>

subsection \<open>The intrinsics of arm\_neon.h\<close>

text \<open>
  A vector register is the list of its lanes, lane 0 first.  \<^verbatim>\<open>vld1q_u8\<close> loads sixteen
  consecutive bytes, \<^verbatim>\<open>vget_low\<close>/\<^verbatim>\<open>vget_high\<close> select the lower or upper half of
  the lanes, \<^verbatim>\<open>vmovl\<close> zero-extends every lane to twice its width, \<^verbatim>\<open>vaddq_u32\<close> and
  \<^verbatim>\<open>vmulq_u32\<close> work lane by lane on 32-bit lanes and wrap around.
\<close>

definition vdupq_n_u32 :: "u32 \<Rightarrow> u32 list" where
  "vdupq_n_u32 x = replicate 4 x"

definition vld1q_u8 :: "u8 list \<Rightarrow> nat \<Rightarrow> u8 list" where
  "vld1q_u8 data i = map (\<lambda>k. data ! (i + k)) [0..<16]"

definition vget_low_u8 :: "u8 list \<Rightarrow> u8 list" where
  "vget_low_u8 v = take 8 v"

definition vget_high_u8 :: "u8 list \<Rightarrow> u8 list" where
  "vget_high_u8 v = drop 8 v"

definition vmovl_u8 :: "u8 list \<Rightarrow> u16 list" where
  "vmovl_u8 v = map ucast v"

definition vget_low_u16 :: "u16 list \<Rightarrow> u16 list" where
  "vget_low_u16 v = take 4 v"

definition vget_high_u16 :: "u16 list \<Rightarrow> u16 list" where
  "vget_high_u16 v = drop 4 v"

definition vmovl_u16 :: "u16 list \<Rightarrow> u32 list" where
  "vmovl_u16 v = map ucast v"

definition vaddq_u32 :: "u32 list \<Rightarrow> u32 list \<Rightarrow> u32 list" where
  "vaddq_u32 a b = map2 (+) a b"

definition vmulq_u32 :: "u32 list \<Rightarrow> u32 list \<Rightarrow> u32 list" where
  "vmulq_u32 a b = map2 (*) a b"

definition vgetq_lane_u32 :: "u32 list \<Rightarrow> nat \<Rightarrow> u32" where
  "vgetq_lane_u32 v n = v ! n"

subsection \<open>The engine\<close>

text \<open>
  The body of the inner loop on one loaded chunk \<^verbatim>\<open>v_data\<close>: the four widened quarters
  are added into \<^verbatim>\<open>block_s1\<close>, and into \<^verbatim>\<open>block_s2\<close> after multiplication by
  \<^verbatim>\<open>v_16\<close>, \<^verbatim>\<open>v_12\<close>, \<^verbatim>\<open>v_8\<close> and \<^verbatim>\<open>v_4\<close>.  The source declares sixteen
  multipliers \<^verbatim>\<open>v_16\<close> ... \<^verbatim>\<open>v_1\<close> and the vectors \<^verbatim>\<open>v_s1\<close>, \<^verbatim>\<open>v_s2\<close>; only these four
  are read.
\<close>

definition neon_chunk :: "u8 list \<Rightarrow> u32 list \<times> u32 list \<Rightarrow> u32 list \<times> u32 list" where
  "neon_chunk v_data acc =
     (let v_16 = vdupq_n_u32 16;
          v_12 = vdupq_n_u32 12;
          v_8 = vdupq_n_u32 8;
          v_4 = vdupq_n_u32 4;
          (block_s1, block_s2) = acc;
          v_data1 = vmovl_u16 (vget_low_u16 (vmovl_u8 (vget_low_u8 v_data)));
          v_data2 = vmovl_u16 (vget_high_u16 (vmovl_u8 (vget_low_u8 v_data)));
          v_data3 = vmovl_u16 (vget_low_u16 (vmovl_u8 (vget_high_u8 v_data)));
          v_data4 = vmovl_u16 (vget_high_u16 (vmovl_u8 (vget_high_u8 v_data)));
          block_s1 = vaddq_u32 block_s1 v_data1;
          block_s1 = vaddq_u32 block_s1 v_data2;
          block_s1 = vaddq_u32 block_s1 v_data3;
          block_s1 = vaddq_u32 block_s1 v_data4;
          block_s2 = vaddq_u32 block_s2 (vmulq_u32 v_data1 v_16);
          block_s2 = vaddq_u32 block_s2 (vmulq_u32 v_data2 v_12);
          block_s2 = vaddq_u32 block_s2 (vmulq_u32 v_data3 v_8);
          block_s2 = vaddq_u32 block_s2 (vmulq_u32 v_data4 v_4)
      in (block_s1, block_s2))"

text \<open>\<^verbatim>\<open>while (block_len >= NEON_CHUNK_SIZE) { ...; i += 16; block_len -= 16; }\<close>\<close>

function chunk_loop ::
  "u8 list \<Rightarrow> nat \<Rightarrow> nat \<Rightarrow> u32 list \<times> u32 list \<Rightarrow> nat \<times> u32 list \<times> u32 list" where
  "chunk_loop data i block_len acc =
     (if block_len \<ge> NEON_CHUNK_SIZE then
        chunk_loop data (i + NEON_CHUNK_SIZE) (block_len - NEON_CHUNK_SIZE)
          (neon_chunk (vld1q_u8 data i) acc)
      else (i, acc))"
  by pat_completeness auto
termination
  by (relation "measure (\<lambda>(data, i, block_len, acc). block_len)")
     (auto simp: NEON_CHUNK_SIZE_def)

text \<open>
  The body of the outer loop: one super-block.  The horizontal sums and \<^verbatim>\<open>s1\<close> are
  32-bit; in the update of \<^verbatim>\<open>s2\<close> the sum \<^verbatim>\<open>s2 + sum_s2\<close> is 32-bit, the rest is
  \<^verbatim>\<open>size_t\<close> arithmetic because \<^verbatim>\<open>BLOCK_SIZE\<close> is a \<^verbatim>\<open>size_t\<close>, and the result is
  truncated to 32 bits by the assignment.  \<^verbatim>\<open>s1\<close> is assigned before \<^verbatim>\<open>s2\<close> reads it.
\<close>

definition superblock_step :: "u8 list \<Rightarrow> nat \<Rightarrow> u32 \<times> u32 \<Rightarrow> nat \<times> u32 \<times> u32" where
  "superblock_step data i s =
     (let (s1, s2) = s;
          block_len = BLOCK_SIZE;
          (i', block_s1, block_s2) =
             chunk_loop data i block_len (vdupq_n_u32 0, vdupq_n_u32 0);
          sum_s1 = vgetq_lane_u32 block_s1 0 + vgetq_lane_u32 block_s1 1 +
                   vgetq_lane_u32 block_s1 2 + vgetq_lane_u32 block_s1 3;
          sum_s2 = vgetq_lane_u32 block_s2 0 + vgetq_lane_u32 block_s2 1 +
                   vgetq_lane_u32 block_s2 2 + vgetq_lane_u32 block_s2 3;
          s1 = (s1 + sum_s1) mod of_nat MOD_ADLER;
          s2 = ucast ((ucast (s2 + sum_s2) + of_nat BLOCK_SIZE * ucast s1
                       - ucast sum_s1 * (of_nat BLOCK_SIZE + 1) div 2 :: size_t)
                      mod of_nat MOD_ADLER)
      in (i', s1, s2))"

text \<open>\<^verbatim>\<open>while (len >= BLOCK_SIZE) { ...; len -= BLOCK_SIZE; }\<close>\<close>

function superblock_loop ::
  "u8 list \<Rightarrow> nat \<Rightarrow> nat \<Rightarrow> u32 \<times> u32 \<Rightarrow> nat \<times> nat \<times> u32 \<times> u32" where
  "superblock_loop data i len s =
     (if len \<ge> BLOCK_SIZE then
        let (i', s') = superblock_step data i s
        in superblock_loop data i' (len - BLOCK_SIZE) s'
      else (i, len, s))"
  by pat_completeness auto
termination
  by (relation "measure (\<lambda>(data, i, len, s). len)") (auto simp: BLOCK_SIZE_def)

definition adler32_neon :: "u8 list \<Rightarrow> u32" where
  "adler32_neon data =
     (let len = length data in
      if len = 0 then 1
      else
        let (i, len, s) =
              (if len \<ge> 16 then superblock_loop data 0 len (1, 0) else (0, len, (1, 0)));
            (s1, s2) = scalar_loop data i len s
        in pack s1 s2)"

section \<open>Reference definitions\<close>

text \<open>
  The Adler-32 recurrence in the words of the specification, on unbounded naturals:
  start from \<open>s1 = 1\<close>, \<open>s2 = 0\<close>; for each byte \<open>b\<close> in sequence order
  \<open>s1 = (s1 + b) mod 65521\<close>, then \<open>s2 = (s2 + s1) mod 65521\<close>; the result is
  \<open>(s2 << 16) | s1\<close>.
\<close>

fun spec_step :: "nat \<times> nat \<Rightarrow> nat \<Rightarrow> nat \<times> nat" where
  "spec_step (s1, s2) b =
     (let s1' = (s1 + b) mod 65521; s2' = (s2 + s1') mod 65521 in (s1', s2'))"

definition spec_adler32 :: "nat list \<Rightarrow> nat" where
  "spec_adler32 bs = (let (s1, s2) = foldl spec_step (1, 0) bs in push_bit 16 s2 OR s1)"

text \<open>
  The unreduced accumulation \<open>s1 += b; s2 += s1\<close> on unbounded naturals: what the
  32-bit loop computes as long as nothing wraps.
\<close>

fun ideal_step :: "nat \<times> nat \<Rightarrow> nat \<Rightarrow> nat \<times> nat" where
  "ideal_step (s1, s2) b = (s1 + b, s2 + (s1 + b))"

text \<open>
  The weight that the vector engine gives to the byte at position \<open>k\<close> of a chunk (the
  multiplier of the quarter that holds it), and the two sums that a super-block starting at
  index \<open>i\<close> accumulates: the bytes, and the bytes times their weights.
\<close>

definition chunk_weight :: "nat \<Rightarrow> nat" where
  "chunk_weight k = 16 - 4 * (k div 4)"

definition block_s1_sum :: "u8 list \<Rightarrow> nat \<Rightarrow> nat" where
  "block_s1_sum data i = (\<Sum>k<BLOCK_SIZE. unat (data ! (i + k)))"

definition block_s2_sum :: "u8 list \<Rightarrow> nat \<Rightarrow> nat" where
  "block_s2_sum data i =
     (\<Sum>k<BLOCK_SIZE. chunk_weight (k mod NEON_CHUNK_SIZE) * unat (data ! (i + k)))"

text \<open>
  The weight of position \<open>k\<close> in a chunk of width \<open>W\<close> and the update of \<open>s2\<close> after a
  super-block, both in the words of the specification: \<open>weight(k) = W - k\<close> and
  \<open>s2 = (s2 + block_s2 + block_len * s1_entering - block_s1 * (block_len + 1) / 2) mod 65521\<close>.
\<close>

definition spec_weight :: "nat \<Rightarrow> nat \<Rightarrow> nat" where
  "spec_weight W k = W - k"

definition spec_s2_update :: "int \<Rightarrow> int \<Rightarrow> int \<Rightarrow> int \<Rightarrow> int \<Rightarrow> int" where
  "spec_s2_update s2 block_s2 block_len s1_entering block_s1 =
     (s2 + block_s2 + block_len * s1_entering - block_s1 * (block_len + 1) div 2) mod 65521"

section \<open>Words and naturals\<close>

text \<open>
  The loops are recursive functions whose equations unfold without end, so they are
  taken out of the simplifier and used one step at a time.
\<close>

declare scalar_loop.simps [simp del] raw_loop.simps [simp del] block_loop.simps [simp del]
  chunk_loop.simps [simp del] superblock_loop.simps [simp del]

lemma unat_byte_less: "unat (b :: u8) < 256"
  using unsigned_less [of b] by simp

lemma unat_ucast_byte: "unat (ucast (b :: u8) :: u32) = unat b"
proof -
  have "unat b < 2 ^ 32" using unat_byte_less [of b] by simp
  then show ?thesis by (simp add: unsigned_ucast_eq take_bit_nat_eq_self_iff)
qed

lemma unat_MOD_ADLER: "unat (of_nat MOD_ADLER :: u32) = 65521"
  by (simp add: MOD_ADLER_def)

lemma pack_unat:
  assumes "unat s1 < 65521" "unat s2 < 65521"
  shows "unat (pack s1 s2) = push_bit 16 (unat s2) OR unat s1"
proof -
  have "push_bit 16 (unat s2) < 2 ^ 32"
    using assms(2) by (simp add: push_bit_eq_mult)
  then have "take_bit 32 (push_bit 16 (unat s2)) = push_bit 16 (unat s2)"
    by (simp only: take_bit_nat_eq_self_iff)
  then show ?thesis
    by (simp add: pack_def unsigned_or_eq unsigned_push_bit_eq)
qed

section \<open>The scalar loop computes the recurrence\<close>

text \<open>
  From accumulators below 65521 no addition of the scalar loop wraps, so the loop from
  index \<open>i\<close> to \<open>len\<close> is the specification's fold over the bytes in between.
\<close>

lemma scalar_step_unat:
  assumes "unat s1 < 65521" "unat s2 < 65521"
  shows "unat ((s1 + ucast (b :: u8)) mod of_nat MOD_ADLER :: u32) = (unat s1 + unat b) mod 65521"
    and "unat ((s2 + (s1 + ucast b) mod of_nat MOD_ADLER) mod of_nat MOD_ADLER :: u32)
         = (unat s2 + (unat s1 + unat b) mod 65521) mod 65521"
proof -
  have b: "unat (ucast b :: u32) = unat b" by (rule unat_ucast_byte)
  have "unat s1 + unat (ucast b :: u32) < 2 ^ LENGTH(32)"
    using assms(1) unat_byte_less [of b] by (simp add: b)
  then have 1: "unat (s1 + ucast b) = unat s1 + unat b"
    by (simp add: unat_add_lem [THEN iffD1] b)
  show s1': "unat ((s1 + ucast b) mod of_nat MOD_ADLER :: u32) = (unat s1 + unat b) mod 65521"
    by (simp add: unat_mod 1 unat_MOD_ADLER)
  have "unat s2 + unat ((s1 + ucast b) mod of_nat MOD_ADLER :: u32) < 2 ^ LENGTH(32)"
    using assms(2) by (simp add: s1')
  then have "unat (s2 + (s1 + ucast b) mod of_nat MOD_ADLER)
             = unat s2 + (unat s1 + unat b) mod 65521"
    by (simp add: unat_add_lem [THEN iffD1] s1')
  then show "unat ((s2 + (s1 + ucast b) mod of_nat MOD_ADLER) mod of_nat MOD_ADLER :: u32)
         = (unat s2 + (unat s1 + unat b) mod 65521) mod 65521"
    by (simp add: unat_mod unat_MOD_ADLER)
qed

lemma scalar_loop_spec:
  "len \<le> length data \<Longrightarrow> unat s1 < 65521 \<Longrightarrow> unat s2 < 65521 \<Longrightarrow>
   scalar_loop data i len (s1, s2) = (r1, r2) \<Longrightarrow>
   (unat r1, unat r2) = foldl spec_step (unat s1, unat s2) (map unat (drop i (take len data)))
   \<and> unat r1 < 65521 \<and> unat r2 < 65521"
proof (induction data i len "(s1, s2)" arbitrary: s1 s2 rule: scalar_loop.induct)
  case (1 data i len s1 s2)
  show ?case
  proof (cases "i < len")
    case False
    with "1.prems" show ?thesis by (simp add: scalar_loop.simps)
  next
    case True
    let ?b = "data ! i"
    let ?s1 = "(s1 + ucast ?b) mod of_nat MOD_ADLER"
    let ?s2 = "(s2 + ?s1) mod of_nat MOD_ADLER"
    have u1: "unat ?s1 = (unat s1 + unat ?b) mod 65521"
      and u2: "unat ?s2 = (unat s2 + (unat s1 + unat ?b) mod 65521) mod 65521"
      using scalar_step_unat [OF "1.prems"(2,3)] by simp_all
    have run: "scalar_loop data (i + 1) len (?s1, ?s2) = (r1, r2)"
      using "1.prems"(4) True by (simp add: scalar_loop.simps [of data i] Let_def)
    have lt: "unat ?s1 < 65521" "unat ?s2 < 65521" by (simp_all add: u1 u2)
    have dr: "drop i (take len data) = ?b # drop (i + 1) (take len data)"
      using True "1.prems"(1) Cons_nth_drop_Suc [of i "take len data"] by simp
    from "1.hyps" [OF True refl refl "1.prems"(1) lt run]
    show ?thesis by (simp add: dr u1 u2 Let_def)
  qed
qed

lemma simple_spec:
  obtains r1 r2 where "adler32_simple data = pack r1 r2"
    and "(unat r1, unat r2) = foldl spec_step (1, 0) (map unat data)"
    and "unat r1 < 65521" and "unat r2 < 65521"
proof -
  obtain r1 r2 where r: "scalar_loop data 0 (length data) (1, 0) = (r1, r2)"
    by (cases "scalar_loop data 0 (length data) (1, 0)")
  from scalar_loop_spec [OF _ _ _ r]
  have "(unat r1, unat r2) = foldl spec_step (1, 0) (map unat data)"
    and "unat r1 < 65521" "unat r2 < 65521" by simp_all
  moreover have "adler32_simple data = pack r1 r2"
    by (simp add: adler32_simple_def r)
  ultimately show thesis using that by blast
qed

section \<open>Unreduced accumulation and the overflow bound\<close>

text \<open>
  The unreduced loop is followed on naturals under an invariant that bounds what the
  remaining bytes can still add; from reduced accumulators and at most 5552 bytes the
  invariant holds, and reducing at the end gives the residues of the per-byte recurrence.
\<close>

lemma ideal_reduce:
  "foldl ideal_step (a, b) xs = (a', b') \<Longrightarrow>
   foldl spec_step (a mod 65521, b mod 65521) xs = (a' mod 65521, b' mod 65521)"
proof (induction xs arbitrary: a b)
  case Nil
  then show ?case by simp
next
  case (Cons x xs)
  from Cons.prems have run: "foldl ideal_step (a + x, b + (a + x)) xs = (a', b')" by simp
  have "spec_step (a mod 65521, b mod 65521) x = ((a + x) mod 65521, (b + (a + x)) mod 65521)"
    by (simp add: Let_def mod_simps)
  with Cons.IH [OF run] show ?case by simp
qed

lemma raw_loop_ideal:
  "base + n \<le> length data \<Longrightarrow> i \<le> n \<Longrightarrow>
   unat s1 + 255 * (n - i) < 2 ^ 32 \<Longrightarrow>
   2 * unat s2 + 2 * (n - i) * unat s1 + 255 * ((n - i) * (n - i + 1)) < 2 ^ 33 \<Longrightarrow>
   raw_loop data base i n (s1, s2) = (r1, r2) \<Longrightarrow>
   (unat r1, unat r2)
     = foldl ideal_step (unat s1, unat s2) (map unat (take (n - i) (drop (base + i) data)))"
proof (induction data base i n "(s1, s2)" arbitrary: s1 s2 rule: raw_loop.induct)
  case (1 data base i n s1 s2)
  show ?case
  proof (cases "i < n")
    case False
    with "1.prems" show ?thesis by (simp add: raw_loop.simps)
  next
    case True
    define m where "m = n - (i + 1)"
    have nm: "n - i = m + 1" using True by (simp add: m_def)
    have ms: "n - Suc i = m" by (simp add: m_def)
    let ?b = "data ! (base + i)"
    let ?s1 = "s1 + ucast ?b"
    let ?s2 = "s2 + ?s1"
    have b: "unat ?b \<le> 255" using unat_byte_less [of ?b] by simp
    have inv1: "unat s1 + 255 * (m + 1) < 2 ^ 32"
      and inv2: "2 * unat s2 + 2 * (m + 1) * unat s1 + 255 * ((m + 1) * (m + 1 + 1)) < 2 ^ 33"
      using "1.prems"(3,4) by (simp_all only: nm)
    have "unat s1 + unat (ucast ?b :: u32) < 2 ^ LENGTH(32)"
      using inv1 b by (simp add: unat_ucast_byte)
    then have u1: "unat ?s1 = unat s1 + unat ?b"
      by (simp add: unat_add_lem [THEN iffD1] unat_ucast_byte)
    have e2: "2 * unat s2 + 2 * (m + 1) * unat s1 + 255 * ((m + 1) * (m + 1 + 1))
              = 2 * unat s2 + 2 * unat s1 + 510
                + (2 * (m * unat s1) + 255 * (m * m) + 765 * m)"
      by (simp add: algebra_simps)
    have inv2': "2 * unat s2 + 2 * unat s1 + 510
                + (2 * (m * unat s1) + 255 * (m * m) + 765 * m) < 8589934592"
      using inv2 unfolding e2 by simp
    have "unat s2 + unat ?s1 < 2 ^ LENGTH(32)"
      using inv2' b unfolding u1 by simp
    then have u2: "unat ?s2 = unat s2 + (unat s1 + unat ?b)"
      by (simp add: unat_add_lem [THEN iffD1] u1)
    have run: "raw_loop data base (i + 1) n (?s1, ?s2) = (r1, r2)"
      using "1.prems"(5) True by (simp add: raw_loop.simps [of data base i] Let_def)
    have n1: "unat ?s1 + 255 * (n - (i + 1)) < 2 ^ 32"
      using inv1 b by (simp add: u1 ms)
    have bm: "unat ?b * m \<le> 255 * m" using b by simp
    have e3: "2 * unat ?s2 + 2 * m * unat ?s1 + 255 * (m * (m + 1))
              = 2 * unat s2 + 2 * unat s1 + 2 * unat ?b
                + (2 * (m * unat s1) + 2 * (unat ?b * m)) + (255 * (m * m) + 255 * m)"
      by (simp only: u1 u2) (simp add: algebra_simps)
    have "2 * unat ?s2 + 2 * m * unat ?s1 + 255 * (m * (m + 1)) < 8589934592"
      using inv2' b bm unfolding e3 by linarith
    then have n2: "2 * unat ?s2 + 2 * (n - (i + 1)) * unat ?s1
                   + 255 * ((n - (i + 1)) * (n - (i + 1) + 1)) < 2 ^ 33"
      by (simp add: ms)
    have le: "i + 1 \<le> n" using True by simp
    have len: "base + i < length data" using True "1.prems"(1) by simp
    have dr: "take (n - i) (drop (base + i) data)
              = ?b # take (n - (i + 1)) (drop (base + (i + 1)) data)"
      by (simp add: nm ms Cons_nth_drop_Suc [OF len, symmetric])
    from "1.hyps" [OF True refl refl "1.prems"(1) le n1 n2 run]
    show ?thesis by (simp add: dr u1 u2)
  qed
qed

lemma reduced_bounds:
  assumes "unat (s1 :: u32) < 65521" "unat (s2 :: u32) < 65521" "n \<le> 5552"
  shows "unat s1 + 255 * n < 2 ^ 32"
    and "2 * unat s2 + 2 * n * unat s1 + 255 * (n * (n + 1)) < 2 ^ 33"
proof -
  show "unat s1 + 255 * n < 2 ^ 32" using assms by simp
  have "n * unat s1 \<le> 5552 * 65520"
    using assms(1,3) by (intro mult_mono) simp_all
  moreover have "n * (n + 1) \<le> 5552 * 5553"
    using assms(3) by (intro mult_mono) simp_all
  ultimately show "2 * unat s2 + 2 * n * unat s1 + 255 * (n * (n + 1)) < 2 ^ 33"
    using assms(2) by simp
qed

lemma raw_loop_reduce:
  assumes "base + n \<le> length data" "n \<le> 5552" "unat s1 < 65521" "unat s2 < 65521"
    and "raw_loop data base 0 n (s1, s2) = (r1, r2)"
  shows "(unat (r1 mod of_nat MOD_ADLER), unat (r2 mod of_nat MOD_ADLER))
         = foldl spec_step (unat s1, unat s2) (map unat (take n (drop base data)))"
proof -
  from raw_loop_ideal [of base n data 0 s1 s2 r1 r2] assms reduced_bounds [OF assms(3,4,2)]
  have "(unat r1, unat r2)
        = foldl ideal_step (unat s1, unat s2) (map unat (take n (drop base data)))"
    by simp
  from ideal_reduce [OF this [symmetric]] assms(3,4)
  show ?thesis by (simp add: unat_mod unat_MOD_ADLER)
qed

lemma mod_reduced: "unat ((r :: u32) mod of_nat MOD_ADLER) < 65521"
  by (simp add: unat_mod unat_MOD_ADLER)

lemma block_loop_spec:
  "blocks * BLOCK_SIZE \<le> length data \<Longrightarrow> block \<le> blocks \<Longrightarrow>
   unat s1 < 65521 \<Longrightarrow> unat s2 < 65521 \<Longrightarrow>
   block_loop data block blocks (s1, s2) = (r1, r2) \<Longrightarrow>
   (unat r1, unat r2)
     = foldl spec_step (unat s1, unat s2)
         (map unat (take ((blocks - block) * BLOCK_SIZE) (drop (block * BLOCK_SIZE) data)))
   \<and> unat r1 < 65521 \<and> unat r2 < 65521"
proof (induction data block blocks "(s1, s2)" arbitrary: s1 s2 rule: block_loop.induct)
  case (1 data block blocks s1 s2)
  show ?case
  proof (cases "block < blocks")
    case False
    with "1.prems" show ?thesis by (simp add: block_loop.simps)
  next
    case True
    obtain t1 t2 where raw: "raw_loop data (block * BLOCK_SIZE) 0 BLOCK_SIZE (s1, s2) = (t1, t2)"
      by (cases "raw_loop data (block * BLOCK_SIZE) 0 BLOCK_SIZE (s1, s2)")
    let ?s1 = "t1 mod of_nat MOD_ADLER"
    let ?s2 = "t2 mod of_nat MOD_ADLER"
    have "(block + 1) * BLOCK_SIZE \<le> blocks * BLOCK_SIZE"
      using True by (intro mult_le_mono1) simp
    then have fits: "block * BLOCK_SIZE + BLOCK_SIZE \<le> length data"
      using "1.prems"(1) by simp
    have step: "(unat ?s1, unat ?s2)
                = foldl spec_step (unat s1, unat s2)
                    (map unat (take BLOCK_SIZE (drop (block * BLOCK_SIZE) data)))"
      using raw_loop_reduce [OF fits _ "1.prems"(3,4) raw] by (simp add: BLOCK_SIZE_def)
    have run: "block_loop data (block + 1) blocks (?s1, ?s2) = (r1, r2)"
      using "1.prems"(5) True by (simp add: block_loop.simps [of data block] raw)
    have le: "block + 1 \<le> blocks" using True by simp
    have split: "(blocks - block) * BLOCK_SIZE = BLOCK_SIZE + (blocks - (block + 1)) * BLOCK_SIZE"
      using True by (simp add: algebra_simps flip: Suc_diff_Suc)
    have dr: "take ((blocks - block) * BLOCK_SIZE) (drop (block * BLOCK_SIZE) data)
              = take BLOCK_SIZE (drop (block * BLOCK_SIZE) data)
                @ take ((blocks - (block + 1)) * BLOCK_SIZE) (drop ((block + 1) * BLOCK_SIZE) data)"
      unfolding split take_add by (simp add: add.commute)
    from "1.hyps" [OF True refl raw [symmetric] "1.prems"(1) le mod_reduced mod_reduced run]
    show ?thesis unfolding dr by (simp add: step)
  qed
qed

lemma word_pair_eqI:
  "(unat (a :: u32), unat (b :: u32)) = p \<Longrightarrow> (unat c, unat d) = p \<Longrightarrow> a = c \<and> b = d"
  by (auto simp: word_unat_eq_iff)

lemma block_spec:
  obtains r1 r2 where "adler32_block data = pack r1 r2"
    and "(unat r1, unat r2) = foldl spec_step (1, 0) (map unat data)"
    and "unat r1 < 65521" and "unat r2 < 65521"
proof (cases "length data < 16")
  case True
  obtain q1 q2 where "adler32_simple data = pack q1 q2"
    and "(unat q1, unat q2) = foldl spec_step (1, 0) (map unat data)"
    and "unat q1 < 65521" and "unat q2 < 65521"
    by (rule simple_spec)
  moreover from True have "adler32_block data = adler32_simple data"
    by (simp add: adler32_block_def adler32_simple_def)
  ultimately show thesis using that by simp
next
  case False
  define blocks where "blocks = length data div BLOCK_SIZE"
  define remaining where "remaining = length data mod BLOCK_SIZE"
  obtain t1 t2 where blk: "block_loop data 0 blocks (1, 0) = (t1, t2)"
    by (cases "block_loop data 0 blocks (1, 0)")
  obtain r1 r2 where raw: "raw_loop data (blocks * BLOCK_SIZE) 0 remaining (t1, t2) = (r1, r2)"
    by (cases "raw_loop data (blocks * BLOCK_SIZE) 0 remaining (t1, t2)")
  have res: "adler32_block data = pack (r1 mod of_nat MOD_ADLER) (r2 mod of_nat MOD_ADLER)"
    using False
    by (simp add: adler32_block_def Let_def blocks_def [symmetric] remaining_def [symmetric]
        blk raw)
  have len: "blocks * BLOCK_SIZE + remaining = length data"
    by (simp add: blocks_def remaining_def)
  have rem: "remaining \<le> 5552"
    by (simp add: remaining_def BLOCK_SIZE_def less_imp_le)
  from block_loop_spec [OF _ _ _ _ blk] len
  have t: "(unat t1, unat t2)
           = foldl spec_step (1, 0) (map unat (take (blocks * BLOCK_SIZE) data))"
    and red: "unat t1 < 65521" "unat t2 < 65521"
    by simp_all
  from raw_loop_reduce [OF _ rem red raw] len
  have "(unat (r1 mod of_nat MOD_ADLER), unat (r2 mod of_nat MOD_ADLER))
        = foldl spec_step (unat t1, unat t2)
            (map unat (take remaining (drop (blocks * BLOCK_SIZE) data)))"
    by simp
  also have "take remaining (drop (blocks * BLOCK_SIZE) data) = drop (blocks * BLOCK_SIZE) data"
    using len by simp
  finally have "(unat (r1 mod of_nat MOD_ADLER), unat (r2 mod of_nat MOD_ADLER))
        = foldl spec_step (1, 0)
            (map unat (take (blocks * BLOCK_SIZE) data) @ map unat (drop (blocks * BLOCK_SIZE) data))"
    by (simp add: t)
  also have "map unat (take (blocks * BLOCK_SIZE) data) @ map unat (drop (blocks * BLOCK_SIZE) data)
             = map unat data"
    by (simp flip: map_append)
  finally have "(unat (r1 mod of_nat MOD_ADLER), unat (r2 mod of_nat MOD_ADLER))
        = foldl spec_step (1, 0) (map unat data)" .
  with res show thesis using that mod_reduced by blast
qed

section \<open>The packed result\<close>

text \<open>
  Both halves of the packed value are recovered from it when they are below \<open>2 ^ 16\<close>.
\<close>

lemma fits16: "unat (s :: u32) < 65521 \<Longrightarrow> take_bit 16 s = s"
proof -
  assume "unat s < 65521"
  then have "unat s < 2 ^ 16" by simp
  then have "take_bit 16 (unat s) = unat s" by (simp only: take_bit_nat_eq_self_iff)
  then have "unat (take_bit 16 s) = unat s" by (simp add: unsigned_take_bit_eq)
  then show ?thesis by (simp add: word_unat_eq_iff)
qed

lemma pack_take_bit:
  "pack (take_bit 16 a) (take_bit 16 b) AND 0xFFFF = take_bit 16 a"
  "drop_bit 16 (pack (take_bit 16 a) (take_bit 16 b)) = take_bit 16 b"
proof -
  have m: "(0xFFFF :: u32) = mask 16" by (simp add: mask_eq_exp_minus_1)
  show "pack (take_bit 16 a) (take_bit 16 b) AND 0xFFFF = take_bit 16 a"
    unfolding m pack_def by (rule bit_word_eqI) (auto simp: bit_simps)
  show "drop_bit 16 (pack (take_bit 16 a) (take_bit 16 b)) = take_bit 16 b"
    unfolding pack_def by (rule bit_word_eqI) (auto simp: bit_simps)
qed

lemma pack_fields:
  assumes "unat s1 < 65521" "unat s2 < 65521"
  shows "pack s1 s2 AND 0xFFFF = s1" "drop_bit 16 (pack s1 s2) = s2"
  using pack_take_bit [of s1 s2] fits16 [OF assms(1)] fits16 [OF assms(2)] by simp_all

section \<open>The vector chunk and the super-block\<close>

text \<open>
  One chunk adds its sixteen bytes to the lanes of \<^verbatim>\<open>block_s1\<close> and its sixteen weighted
  bytes to the lanes of \<^verbatim>\<open>block_s2\<close>; over a super-block the lane totals are the two block
  sums, as 32-bit words.
\<close>

lemma ucast_twice: "(ucast (ucast (b :: u8) :: u16) :: u32) = ucast b"
  by (rule bit_word_eqI) (auto simp: bit_simps dest: bit_imp_le_length)

lemma sum16: "(\<Sum>k<(16::nat). g k) = (g 0 + g 1 + g 2 + g 3 + g 4 + g 5 + g 6 + g 7 + g 8 + g 9 + g 10
     + g 11 + g 12 + g 13 + g 14 + (g 15 :: 'a :: comm_monoid_add))"
  by (simp add: numeral_eq_Suc lessThan_Suc ac_simps)

lemma upt16: "[0..<16] = [0, 1, 2, 3, 4, 5, 6, 7, 8, 9, 10, 11, 12, 13, 14, 15]"
  by (simp add: upt_rec numeral_eq_Suc)

lemma replicate4: "replicate 4 x = [x, x, x, x]"
  by (simp add: numeral_eq_Suc)

lemma len4: "length (v :: u32 list) = 4 \<Longrightarrow> \<exists>a b c d. v = [a, b, c, d]"
  by (auto simp: length_Suc_conv numeral_eq_Suc)

lemmas neon_defs = neon_chunk_def vld1q_u8_def vdupq_n_u32_def vget_low_u8_def vget_high_u8_def
     vmovl_u8_def vmovl_u16_def vget_low_u16_def vget_high_u16_def vaddq_u32_def vmulq_u32_def

lemma neon_chunk_lanes:
  "neon_chunk (vld1q_u8 data i) ([p0, p1, p2, p3], [q0, q1, q2, q3]) =
    ([p0 + ucast (data ! i) + ucast (data ! (i + 4)) + ucast (data ! (i + 8)) + ucast (data ! (i + 12)),
      p1 + ucast (data ! (i + 1)) + ucast (data ! (i + 5)) + ucast (data ! (i + 9)) + ucast (data ! (i + 13)),
      p2 + ucast (data ! (i + 2)) + ucast (data ! (i + 6)) + ucast (data ! (i + 10)) + ucast (data ! (i + 14)),
      p3 + ucast (data ! (i + 3)) + ucast (data ! (i + 7)) + ucast (data ! (i + 11)) + ucast (data ! (i + 15))],
     [q0 + ucast (data ! i) * 16 + ucast (data ! (i + 4)) * 12 + ucast (data ! (i + 8)) * 8 + ucast (data ! (i + 12)) * 4,
      q1 + ucast (data ! (i + 1)) * 16 + ucast (data ! (i + 5)) * 12 + ucast (data ! (i + 9)) * 8 + ucast (data ! (i + 13)) * 4,
      q2 + ucast (data ! (i + 2)) * 16 + ucast (data ! (i + 6)) * 12 + ucast (data ! (i + 10)) * 8 + ucast (data ! (i + 14)) * 4,
      q3 + ucast (data ! (i + 3)) * 16 + ucast (data ! (i + 7)) * 12 + ucast (data ! (i + 11)) * 8 + ucast (data ! (i + 15)) * 4])"
  unfolding upt16 neon_defs replicate4 by (simp add: ucast_twice)

lemma sum_split_shift:
  "(\<Sum>k<m + (n::nat). f k) = (\<Sum>k<m. f k) + (\<Sum>k<n. (f (m + k) :: 'a :: comm_monoid_add))"
  by (induction n) (simp_all add: add.assoc)

lemma chunk_weight_values:
  "chunk_weight 0 = 16" "chunk_weight 1 = 16" "chunk_weight 2 = 16" "chunk_weight 3 = 16"
  "chunk_weight 4 = 12" "chunk_weight 5 = 12" "chunk_weight 6 = 12" "chunk_weight 7 = 12"
  "chunk_weight 8 = 8" "chunk_weight 9 = 8" "chunk_weight 10 = 8" "chunk_weight 11 = 8"
  "chunk_weight 12 = 4" "chunk_weight 13 = 4" "chunk_weight 14 = 4" "chunk_weight 15 = 4"
  by (simp_all add: chunk_weight_def)

lemma neon_chunk_sums:
  assumes "length bs1 = 4" "length bs2 = 4"
    and "neon_chunk (vld1q_u8 data i) (bs1, bs2) = (rs1, rs2)"
  shows "length rs1 = 4 \<and> length rs2 = 4
    \<and> sum_list rs1 = sum_list bs1 + (\<Sum>k<16. ucast (data ! (i + k)))
    \<and> sum_list rs2 = sum_list bs2 + (\<Sum>k<16. of_nat (chunk_weight k) * ucast (data ! (i + k)))"
proof -
  from len4 [OF assms(1)] obtain p0 p1 p2 p3 where p: "bs1 = [p0, p1, p2, p3]" by blast
  from len4 [OF assms(2)] obtain q0 q1 q2 q3 where q: "bs2 = [q0, q1, q2, q3]" by blast
  from assms(3) show ?thesis
    unfolding p q neon_chunk_lanes sum16 chunk_weight_values by auto
qed

lemma chunk_loop_sums:
  "length bs1 = 4 \<Longrightarrow> length bs2 = 4 \<Longrightarrow>
   chunk_loop data i block_len (bs1, bs2) = (i', rs1, rs2) \<Longrightarrow>
   i' = i + 16 * (block_len div 16) \<and> length rs1 = 4 \<and> length rs2 = 4
   \<and> sum_list rs1 = sum_list bs1 + (\<Sum>k<16 * (block_len div 16). ucast (data ! (i + k)))
   \<and> sum_list rs2 = sum_list bs2
        + (\<Sum>k<16 * (block_len div 16). of_nat (chunk_weight (k mod 16)) * ucast (data ! (i + k)))"
proof (induction data i block_len "(bs1, bs2)" arbitrary: bs1 bs2 rule: chunk_loop.induct)
  case (1 data i block_len bs1 bs2)
  show ?case
  proof (cases "block_len \<ge> NEON_CHUNK_SIZE")
    case False
    then have "block_len div 16 = 0" by (simp add: NEON_CHUNK_SIZE_def)
    with False "1.prems" show ?thesis by (simp add: chunk_loop.simps)
  next
    case True
    obtain ms1 ms2 where chunk: "neon_chunk (vld1q_u8 data i) (bs1, bs2) = (ms1, ms2)"
      by (cases "neon_chunk (vld1q_u8 data i) (bs1, bs2)")
    from neon_chunk_sums [OF "1.prems"(1,2) chunk]
    have l1: "length ms1 = 4" and l2: "length ms2 = 4"
      and m1: "sum_list ms1 = sum_list bs1 + (\<Sum>k<16. ucast (data ! (i + k)))"
      and m2: "sum_list ms2 = sum_list bs2
               + (\<Sum>k<16. of_nat (chunk_weight k) * ucast (data ! (i + k)))"
      by simp_all
    define c where "c = (block_len - NEON_CHUNK_SIZE) div 16"
    have cnt: "16 * (block_len div 16) = 16 + 16 * c"
      using True by (simp add: c_def NEON_CHUNK_SIZE_def le_div_geq)
    have run: "chunk_loop data (i + NEON_CHUNK_SIZE) (block_len - NEON_CHUNK_SIZE) (ms1, ms2)
               = (i', rs1, rs2)"
      using "1.prems"(3) True by (simp add: chunk_loop.simps [of data i] chunk)
    from "1.hyps" [OF True chunk l1 l2 run]
    have i': "i' = i + NEON_CHUNK_SIZE + 16 * c"
      and r: "length rs1 = 4" "length rs2 = 4"
      and r1: "sum_list rs1 = sum_list ms1
               + (\<Sum>k<16 * c. ucast (data ! (i + NEON_CHUNK_SIZE + k)))"
      and r2: "sum_list rs2 = sum_list ms2
               + (\<Sum>k<16 * c. of_nat (chunk_weight (k mod 16))
                    * ucast (data ! (i + NEON_CHUNK_SIZE + k)))"
      by (simp_all add: c_def)
    have w: "(\<Sum>k<16. of_nat (chunk_weight (k mod 16)) * ucast (data ! (i + k)) :: u32)
             = (\<Sum>k<16. of_nat (chunk_weight k) * ucast (data ! (i + k)))"
      by (rule sum.cong) simp_all
    show ?thesis
      unfolding cnt sum_split_shift w
      using i' r r1 r2 m1 m2 by (simp add: NEON_CHUNK_SIZE_def add.assoc)
  qed
qed

lemma chunk_loop_block:
  assumes "chunk_loop data i BLOCK_SIZE (vdupq_n_u32 0, vdupq_n_u32 0) = (i', rs1, rs2)"
  shows "i' = i + BLOCK_SIZE" "length rs1 = 4" "length rs2 = 4"
    "sum_list rs1 = of_nat (block_s1_sum data i)"
    "sum_list rs2 = of_nat (block_s2_sum data i)"
proof -
  have z: "length (vdupq_n_u32 0) = 4" "sum_list (vdupq_n_u32 0) = 0"
    by (simp_all add: vdupq_n_u32_def replicate4)
  have cnt: "16 * (BLOCK_SIZE div 16) = BLOCK_SIZE" by (simp add: BLOCK_SIZE_def)
  from chunk_loop_sums [OF z(1) z(1) assms]
  have i': "i' = i + BLOCK_SIZE" and len: "length rs1 = 4" "length rs2 = 4"
    and r1: "sum_list rs1 = (\<Sum>k<BLOCK_SIZE. ucast (data ! (i + k)))"
    and r2: "sum_list rs2
             = (\<Sum>k<BLOCK_SIZE. of_nat (chunk_weight (k mod 16)) * ucast (data ! (i + k)))"
    unfolding cnt z by simp_all
  show "i' = i + BLOCK_SIZE" "length rs1 = 4" "length rs2 = 4" by (rule i' len)+
  show "sum_list rs1 = of_nat (block_s1_sum data i)"
    unfolding r1 block_s1_sum_def by simp
  show "sum_list rs2 = of_nat (block_s2_sum data i)"
    unfolding r2 block_s2_sum_def by (simp add: NEON_CHUNK_SIZE_def)
qed

lemma lanes_sum:
  "length (v :: u32 list) = 4 \<Longrightarrow>
   vgetq_lane_u32 v 0 + vgetq_lane_u32 v 1 + vgetq_lane_u32 v 2 + vgetq_lane_u32 v 3 = sum_list v"
  by (auto dest!: len4 simp: vgetq_lane_u32_def add.assoc)

lemma superblock_step_words:
  "superblock_step data i (s1, s2) =
     (i + BLOCK_SIZE,
      (s1 + of_nat (block_s1_sum data i)) mod of_nat MOD_ADLER,
      ucast ((ucast (s2 + of_nat (block_s2_sum data i))
              + of_nat BLOCK_SIZE * ucast ((s1 + of_nat (block_s1_sum data i)) mod of_nat MOD_ADLER)
              - ucast (of_nat (block_s1_sum data i) :: u32) * (of_nat BLOCK_SIZE + 1) div 2
              :: size_t) mod of_nat MOD_ADLER))"
proof -
  obtain i' rs1 rs2
    where loop: "chunk_loop data i BLOCK_SIZE (vdupq_n_u32 0, vdupq_n_u32 0) = (i', rs1, rs2)"
    by (cases "chunk_loop data i BLOCK_SIZE (vdupq_n_u32 0, vdupq_n_u32 0)")
  note r = chunk_loop_block [OF loop]
  show ?thesis
    unfolding superblock_step_def loop Let_def prod.case
      lanes_sum [OF r(2)] lanes_sum [OF r(3)] r(1,4,5) ..
qed

section \<open>The loops of the vector engine\<close>

text \<open>
  The super-block loop leaves fewer than 5552 in \<^verbatim>\<open>len\<close> and, once it has run, at least
  5552 in \<^verbatim>\<open>i\<close>: the tail loop \<^verbatim>\<open>while (i < len)\<close> then does nothing.
\<close>

lemma ideal_replicate:
  "foldl ideal_step (a, b) (replicate n c) = (a', b') \<Longrightarrow>
   a' = a + n * c \<and> 2 * b' = 2 * b + 2 * n * a + c * (n * (n + 1))"
proof (induction n arbitrary: a b)
  case 0
  then show ?case by simp
next
  case (Suc n)
  from Suc.prems have "foldl ideal_step (a + c, b + (a + c)) (replicate n c) = (a', b')"
    by simp
  from Suc.IH [OF this] show ?case by (simp add: algebra_simps)
qed

lemma MOD_ADLER_size_t: "unat (of_nat MOD_ADLER :: size_t) = 65521"
  by (simp add: MOD_ADLER_def)

lemma ucast_mod_reduced:
  "unat (ucast ((x :: size_t) mod of_nat MOD_ADLER) :: u32) = unat x mod 65521"
proof -
  have "unat (x mod of_nat MOD_ADLER) = unat x mod 65521"
    by (simp add: unat_mod MOD_ADLER_size_t)
  moreover have "unat x mod 65521 < 2 ^ 32"
    by (rule less_trans [of _ 65521]) simp_all
  ultimately show ?thesis
    by (simp add: unsigned_ucast_eq take_bit_nat_eq_self_iff)
qed

lemma superblock_step_reduced:
  "superblock_step data i (s1, s2) = (i', r1, r2) \<Longrightarrow>
   i' = i + BLOCK_SIZE \<and> unat r1 < 65521 \<and> unat r2 < 65521"
  unfolding superblock_step_words by (auto simp: mod_reduced ucast_mod_reduced)

lemma superblock_loop_result:
  "superblock_loop data i len (s1, s2) = (i', len', r1, r2) \<Longrightarrow>
   unat s1 < 65521 \<Longrightarrow> unat s2 < 65521 \<Longrightarrow>
   len' < BLOCK_SIZE \<and> i \<le> i' \<and> (BLOCK_SIZE \<le> len \<longrightarrow> i + BLOCK_SIZE \<le> i')
   \<and> unat r1 < 65521 \<and> unat r2 < 65521"
proof (induction data i len "(s1, s2)" arbitrary: s1 s2 rule: superblock_loop.induct)
  case (1 data i len s1 s2)
  show ?case
  proof (cases "BLOCK_SIZE \<le> len")
    case False
    with "1.prems" show ?thesis by (simp add: superblock_loop.simps)
  next
    case True
    obtain j t1 t2 where step: "superblock_step data i (s1, s2) = (j, t1, t2)"
      by (cases "superblock_step data i (s1, s2)")
    from superblock_step_reduced [OF step]
    have j: "j = i + BLOCK_SIZE" and red: "unat t1 < 65521" "unat t2 < 65521" by simp_all
    have run: "superblock_loop data j (len - BLOCK_SIZE) (t1, t2) = (i', len', r1, r2)"
      using "1.prems"(1) True by (simp add: superblock_loop.simps [of data i] step)
    from "1.hyps" [OF True step [symmetric] refl run red] True j
    show ?thesis by simp
  qed
qed

lemma neon_long:
  assumes "BLOCK_SIZE \<le> length data"
    and "superblock_loop data 0 (length data) (1, 0) = (i', len', r1, r2)"
  shows "adler32_neon data = pack r1 r2" "unat r1 < 65521" "unat r2 < 65521"
proof -
  from superblock_loop_result [OF assms(2)] assms(1)
  have "len' < BLOCK_SIZE" "BLOCK_SIZE \<le> i'" and red: "unat r1 < 65521" "unat r2 < 65521"
    by simp_all
  then have "\<not> i' < len'" by simp
  then have tail: "scalar_loop data i' len' (r1, r2) = (r1, r2)"
    by (simp add: scalar_loop.simps)
  have "16 \<le> length data" "length data \<noteq> 0"
    using assms(1) by (auto simp: BLOCK_SIZE_def)
  then show "adler32_neon data = pack r1 r2"
    by (simp add: adler32_neon_def Let_def assms(2) tail)
  show "unat r1 < 65521" "unat r2 < 65521" by (rule red)+
qed

lemma neon_short:
  assumes "length data < BLOCK_SIZE"
  shows "adler32_neon data = adler32_simple data"
proof (cases "length data = 0")
  case True
  then show ?thesis
    by (simp add: adler32_neon_def adler32_simple_def scalar_loop.simps pack_def)
next
  case False
  have "superblock_loop data 0 (length data) (1, 0) = (0, length data, 1, 0)"
    using assms by (simp add: superblock_loop.simps)
  with False show ?thesis
    by (simp add: adler32_neon_def adler32_simple_def Let_def)
qed

lemma neon_one_block:
  assumes "BLOCK_SIZE \<le> length data" "length data < 2 * BLOCK_SIZE"
  shows "adler32_neon data = pack (fst (snd (superblock_step data 0 (1, 0))))
                                  (snd (snd (superblock_step data 0 (1, 0))))"
proof -
  obtain j t1 t2 where step: "superblock_step data 0 (1, 0) = (j, t1, t2)"
    by (cases "superblock_step data 0 (1, 0)")
  have "\<not> BLOCK_SIZE \<le> length data - BLOCK_SIZE"
    using assms(2) by simp
  then have "superblock_loop data j (length data - BLOCK_SIZE) (t1, t2)
        = (j, length data - BLOCK_SIZE, t1, t2)"
    by (simp add: superblock_loop.simps [of data j])
  then have "superblock_loop data 0 (length data) (1, 0) = (j, length data - BLOCK_SIZE, t1, t2)"
    using assms(1) by (simp add: superblock_loop.simps [of data 0] step)
  from neon_long(1) [OF assms(1) this] show ?thesis by (simp add: step)
qed

lemma sums_head:
  "block_s1_sum (x # replicate 5551 0) 0 = unat x"
  "block_s2_sum (x # replicate 5551 0) 0 = 16 * unat x"
proof -
  have nth: "unat ((x # replicate 5551 0) ! k) = (if k = 0 then unat x else 0)" if "k < 5552" for k
    using that by (simp add: nth_Cons')
  have "block_s1_sum (x # replicate 5551 0) 0 = (\<Sum>k<(5552::nat). if k = 0 then unat x else 0)"
    unfolding block_s1_sum_def BLOCK_SIZE_def by (rule sum.cong) (simp_all add: nth)
  then show "block_s1_sum (x # replicate 5551 0) 0 = unat x" by simp
  have "block_s2_sum (x # replicate 5551 0) 0
        = (\<Sum>k<(5552::nat). if k = 0 then 16 * unat x else 0)"
    unfolding block_s2_sum_def BLOCK_SIZE_def
    by (rule sum.cong) (simp_all add: nth chunk_weight_def)
  then show "block_s2_sum (x # replicate 5551 0) 0 = 16 * unat x" by simp
qed

lemma sums_zeros:
  "block_s1_sum (replicate 5552 0 @ t) 0 = 0"
  "block_s2_sum (replicate 5552 0 @ t) 0 = 0"
  unfolding block_s1_sum_def block_s2_sum_def BLOCK_SIZE_def
  by (simp_all add: nth_append)

lemma sums_second:
  "block_s1_sum (0 # x # replicate 5550 0) 0 = unat x"
  "block_s2_sum (0 # x # replicate 5550 0) 0 = 16 * unat x"
proof -
  have nth: "unat ((0 # x # replicate 5550 0) ! k) = (if k = 1 then unat x else 0)"
    if "k < 5552" for k
    using that by (simp add: nth_Cons')
  have "block_s1_sum (0 # x # replicate 5550 0) 0 = (\<Sum>k<(5552::nat). if k = 1 then unat x else 0)"
    unfolding block_s1_sum_def BLOCK_SIZE_def by (rule sum.cong) (simp_all add: nth)
  then show "block_s1_sum (0 # x # replicate 5550 0) 0 = unat x" by simp
  have "block_s2_sum (0 # x # replicate 5550 0) 0
        = (\<Sum>k<(5552::nat). if k = 1 then 16 * unat x else 0)"
    unfolding block_s2_sum_def BLOCK_SIZE_def
    by (rule sum.cong) (simp_all add: nth chunk_weight_def NEON_CHUNK_SIZE_def)
  then show "block_s2_sum (0 # x # replicate 5550 0) 0 = 16 * unat x" by simp
qed

section \<open>Concrete buffers\<close>

text \<open>
  Values of the scalar and block engines on the buffers used below, through the
  recurrence on naturals.
\<close>

lemma spec_zeros:
  "a < 65521 \<Longrightarrow> b < 65521 \<Longrightarrow>
   foldl spec_step (a, b) (replicate n 0) = (a, (b + n * a) mod 65521)"
proof (induction n arbitrary: b)
  case 0
  then show ?case by simp
next
  case (Suc n)
  have "(b + a) mod 65521 < 65521" by simp
  from Suc.IH [OF Suc.prems(1) this] Suc.prems
  show ?case by (simp add: Let_def mod_simps algebra_simps)
qed

lemma words_of_pair:
  "(unat (r1 :: u32), unat (r2 :: u32)) = (a, b) \<Longrightarrow> a < 2 ^ 32 \<Longrightarrow> b < 2 ^ 32 \<Longrightarrow>
   r1 = of_nat a \<and> r2 = of_nat b"
  by auto

lemma simple_head_zeros: "adler32_simple (1 # replicate 5551 0) = 0x2B600002"
proof -
  obtain r1 r2 where res: "adler32_simple (1 # replicate 5551 0) = pack r1 r2"
    and "(unat r1, unat r2) = foldl spec_step (1, 0) (map unat (1 # replicate 5551 (0 :: u8)))"
    and "unat r1 < 65521" and "unat r2 < 65521"
    by (rule simple_spec)
  moreover have "foldl spec_step (Suc (Suc 0), Suc (Suc 0)) (replicate 5551 0) = (2, 11104)"
    using spec_zeros [of "Suc (Suc 0)" "Suc (Suc 0)" 5551] by simp
  ultimately have "(unat r1, unat r2) = (2, 11104)" by (simp add: Let_def)
  from words_of_pair [OF this] show ?thesis by (simp add: res pack_def)
qed

lemma simple_two_zeros: "adler32_simple (2 # replicate 5551 0) = 0x41100003"
proof -
  obtain r1 r2 where res: "adler32_simple (2 # replicate 5551 0) = pack r1 r2"
    and "(unat r1, unat r2) = foldl spec_step (1, 0) (map unat (2 # replicate 5551 (0 :: u8)))"
    and "unat r1 < 65521" and "unat r2 < 65521"
    by (rule simple_spec)
  moreover have "foldl spec_step (3, 3) (replicate 5551 0) = (3, 16656)"
    using spec_zeros [of 3 3 5551] by simp
  ultimately have "(unat r1, unat r2) = (3, 16656)" by (simp add: Let_def)
  from words_of_pair [OF this] show ?thesis by (simp add: res pack_def)
qed

lemma simple_zeros_one: "adler32_simple (replicate 5552 0 @ [1]) = 0x15B20002"
proof -
  obtain r1 r2 where res: "adler32_simple (replicate 5552 0 @ [1]) = pack r1 r2"
    and "(unat r1, unat r2) = foldl spec_step (1, 0) (map unat (replicate 5552 0 @ [1 :: u8]))"
    and "unat r1 < 65521" and "unat r2 < 65521"
    by (rule simple_spec)
  moreover have "foldl spec_step (Suc 0, 0) (replicate 5552 0) = (1, 5552)"
    using spec_zeros [of "Suc 0" 0 5552] by simp
  ultimately have "(unat r1, unat r2) = (2, 5554)" by (simp add: Let_def)
  from words_of_pair [OF this] show ?thesis by (simp add: res pack_def)
qed

lemma block_ff: "foldl spec_step (1, 0) (replicate 5552 255) = (39820, 61839)"
proof -
  obtain a b where run: "foldl ideal_step (1, 0) (replicate 5552 255) = (a, b)"
    by (cases "foldl ideal_step (1, 0) (replicate 5552 255)")
  from ideal_replicate [OF run] have "a = 1415761" "b = 3930863192" by simp_all
  with ideal_reduce [OF run] show ?thesis by simp
qed

lemma simple_ff: "adler32_simple (replicate 5552 255) = 0xF18F9B8C"
proof -
  obtain r1 r2 where res: "adler32_simple (replicate 5552 255) = pack r1 r2"
    and "(unat r1, unat r2) = foldl spec_step (1, 0) (map unat (replicate 5552 (255 :: u8)))"
    and "unat r1 < 65521" and "unat r2 < 65521"
    by (rule simple_spec)
  then have "(unat r1, unat r2) = (39820, 61839)" by (simp add: block_ff [unfolded One_nat_def])
  from words_of_pair [OF this] show ?thesis by (simp add: res pack_def)
qed

lemma block_ff_value: "adler32_block (replicate 5552 255) = 0xF18F9B8C"
proof -
  obtain r1 r2 where res: "adler32_block (replicate 5552 255) = pack r1 r2"
    and "(unat r1, unat r2) = foldl spec_step (1, 0) (map unat (replicate 5552 (255 :: u8)))"
    and "unat r1 < 65521" and "unat r2 < 65521"
    by (rule block_spec)
  then have "(unat r1, unat r2) = (39820, 61839)" by (simp add: block_ff [unfolded One_nat_def])
  from words_of_pair [OF this] show ?thesis by (simp add: res pack_def)
qed

section \<open>Claims\<close>

text \<open>
  C3: for every byte sequence, of any length, the scalar engine returns the packed
  Adler-32 value of the specification's recurrence: \<open>s1 = 1\<close>, \<open>s2 = 0\<close>, each byte
  folded left to right with \<open>s1 = (s1 + b) mod 65521\<close> then \<open>s2 = (s2 + s1) mod 65521\<close>,
  and the result \<open>(s2 << 16) | s1\<close>.  The engine is a total function of the buffer:
  there is no error result.
\<close>

theorem scalar_engine_is_adler32:
  "unat (adler32_simple data) = spec_adler32 (map unat data)"
proof -
  obtain r1 r2 where "adler32_simple data = pack r1 r2"
    and "(unat r1, unat r2) = foldl spec_step (1, 0) (map unat data)"
    and "unat r1 < 65521" and "unat r2 < 65521"
    by (rule simple_spec)
  then show ?thesis
    by (simp add: spec_adler32_def pack_unat split: prod.splits) (metis prod.inject)
qed

text \<open>
  C9: on the empty buffer each of the three engines returns the packed seed, 1.
\<close>

theorem empty_input_returns_seed:
  "adler32_simple [] = 1 \<and> adler32_block [] = 1 \<and> adler32_neon [] = 1"
  by (simp add: adler32_simple_def adler32_block_def adler32_neon_def
      scalar_loop.simps pack_def)

text \<open>
  C2: for every buffer the block-batched engine returns the same packed value as the
  scalar engine.  For sixteen bytes or more it runs over chunks of 5552 bytes and a final
  partial chunk, adding \<open>s1 += byte; s2 += s1\<close> in 32 bits without reduction and reducing
  both modulo 65521 at the end of each chunk; below sixteen bytes it is the scalar loop.
\<close>

theorem block_engine_equals_scalar: "adler32_block data = adler32_simple data"
proof -
  obtain r1 r2 where block: "adler32_block data = pack r1 r2"
    and r: "(unat r1, unat r2) = foldl spec_step (1, 0) (map unat data)"
    and "unat r1 < 65521" and "unat r2 < 65521"
    by (rule block_spec)
  obtain q1 q2 where simple: "adler32_simple data = pack q1 q2"
    and q: "(unat q1, unat q2) = foldl spec_step (1, 0) (map unat data)"
    and "unat q1 < 65521" and "unat q2 < 65521"
    by (rule simple_spec)
  from word_pair_eqI [OF r q] have "r1 = q1" "r2 = q2" by simp_all
  with block simple show ?thesis by simp
qed

text \<open>
  C7: from accumulators below 65521, the unreduced 32-bit loop over at most 5552 bytes
  computes exactly the unbounded sums, which are below \<open>2 ^ 32\<close>: nothing wraps, at the end
  of the run or (taking a shorter \<open>n\<close>) at any point before.  The bound is the largest
  one: 5553 bytes of value 255 from \<open>s1 = s2 = 65520\<close> push \<open>s2\<close> to \<open>2 ^ 32\<close> or more.  On
  5552 bytes of value 255 the block engine and the scalar engine both return
  \<open>0xF18F9B8C\<close>.
\<close>

theorem unreduced_run_fits_32_bits:
  assumes "unat s1 < 65521" "unat s2 < 65521" "n \<le> 5552" "base + n \<le> length data"
  shows "(case foldl ideal_step (unat s1, unat s2) (map unat (take n (drop base data))) of
            (a, b) \<Rightarrow> a < 2 ^ 32 \<and> b < 2 ^ 32
                     \<and> raw_loop data base 0 n (s1, s2) = (of_nat a, of_nat b))
       \<and> 2 ^ 32 \<le> snd (foldl ideal_step (65520, 65520) (replicate 5553 255))
       \<and> adler32_block (replicate 5552 255) = 0xF18F9B8C
       \<and> adler32_simple (replicate 5552 255) = 0xF18F9B8C"
proof -
  obtain r1 r2 where raw: "raw_loop data base 0 n (s1, s2) = (r1, r2)"
    by (cases "raw_loop data base 0 n (s1, s2)")
  from raw_loop_ideal [of base n data 0 s1 s2 r1 r2] assms(3,4) raw
    reduced_bounds [OF assms(1,2,3)]
  have eq: "foldl ideal_step (unat s1, unat s2) (map unat (take n (drop base data)))
            = (unat r1, unat r2)"
    by simp
  have "unat r1 < 2 ^ 32" "unat r2 < 2 ^ 32"
    using unsigned_less [of r1] unsigned_less [of r2] by simp_all
  then have run: "case foldl ideal_step (unat s1, unat s2) (map unat (take n (drop base data))) of
            (a, b) \<Rightarrow> a < 2 ^ 32 \<and> b < 2 ^ 32
                     \<and> raw_loop data base 0 n (s1, s2) = (of_nat a, of_nat b)"
    unfolding eq prod.case raw by simp
  obtain a b where over: "foldl ideal_step (65520, 65520) (replicate 5553 255) = (a, b)"
    by (cases "foldl ideal_step (65520, 65520) (replicate 5553 255)")
  from ideal_replicate [OF over] have "b = 4296171735" by simp
  then have max: "2 ^ 32 \<le> snd (foldl ideal_step (65520, 65520) (replicate 5553 255))"
    by (simp add: over)
  from run max show ?thesis by (simp add: block_ff_value simple_ff)
qed

theorem unreduced_run_fits_32_bits_witness:
  "unat (65520 :: u32) < 65521 \<and> unat (65520 :: u32) < 65521 \<and> (2 :: nat) \<le> 5552
   \<and> 0 + 2 \<le> length [255, 255 :: u8]
   \<and> raw_loop [255, 255] 0 0 2 (65520, 65520) = (66030, 197325)"
  using unreduced_run_fits_32_bits [of 65520 65520 2 0 "[255, 255]"]
  by (simp add: Let_def)

text \<open>
  C8: for each of the three engines and every buffer, the low sixteen bits (\<open>s1\<close>) and the
  high sixteen bits (\<open>s2\<close>) of the returned value are below 65521.
\<close>

theorem results_are_reduced:
  "adler32_simple data AND 0xFFFF < 65521 \<and> drop_bit 16 (adler32_simple data) < 65521
   \<and> adler32_block data AND 0xFFFF < 65521 \<and> drop_bit 16 (adler32_block data) < 65521
   \<and> adler32_neon data AND 0xFFFF < 65521 \<and> drop_bit 16 (adler32_neon data) < 65521"
proof -
  have packed: "pack r1 r2 AND 0xFFFF < 65521 \<and> drop_bit 16 (pack r1 r2) < 65521"
    if "unat r1 < 65521" "unat r2 < 65521" for r1 r2
    using that by (simp add: pack_fields word_less_nat_alt)
  obtain r1 r2 where "adler32_simple data = pack r1 r2"
    and "(unat r1, unat r2) = foldl spec_step (1, 0) (map unat data)"
    and "unat r1 < 65521" and "unat r2 < 65521"
    by (rule simple_spec)
  with packed have simple:
    "adler32_simple data AND 0xFFFF < 65521 \<and> drop_bit 16 (adler32_simple data) < 65521"
    by simp
  have neon: "adler32_neon data AND 0xFFFF < 65521 \<and> drop_bit 16 (adler32_neon data) < 65521"
  proof (cases "BLOCK_SIZE \<le> length data")
    case True
    obtain i' len' q1 q2
      where "superblock_loop data 0 (length data) (1, 0) = (i', len', q1, q2)"
      by (cases "superblock_loop data 0 (length data) (1, 0)")
    from neon_long [OF True this] packed show ?thesis by simp
  next
    case False
    with simple show ?thesis by (simp add: neon_short)
  qed
  obtain b1 b2 where "adler32_block data = pack b1 b2"
    and "(unat b1, unat b2) = foldl spec_step (1, 0) (map unat data)"
    and "unat b1 < 65521" and "unat b2 < 65521"
    by (rule block_spec)
  with packed have block:
    "adler32_block data AND 0xFFFF < 65521 \<and> drop_bit 16 (adler32_block data) < 65521"
    by simp
  from simple block neon show ?thesis by simp
qed

text \<open>
  C10: on a buffer of at least 16 and fewer than 5552 bytes the super-block loop of the
  vector engine returns its arguments unchanged (no iteration), and the vector engine
  returns the value of the scalar engine.
\<close>

theorem short_vector_input_is_scalar:
  assumes "16 \<le> length data" "length data < 5552"
  shows "superblock_loop data 0 (length data) (1, 0) = (0, length data, 1, 0)
         \<and> adler32_neon data = adler32_simple data"
proof -
  from assms(2) have "superblock_loop data 0 (length data) (1, 0) = (0, length data, 1, 0)"
    by (simp add: superblock_loop.simps BLOCK_SIZE_def)
  moreover from assms(2) have "adler32_neon data = adler32_simple data"
    by (simp add: neon_short BLOCK_SIZE_def)
  ultimately show ?thesis ..
qed

theorem short_vector_input_is_scalar_witness:
  "16 \<le> length [1, 2, 3, 4, 5, 6, 7, 8, 9, 10, 11, 12, 13, 14, 15, 16 :: u8]
   \<and> length [1, 2, 3, 4, 5, 6, 7, 8, 9, 10, 11, 12, 13, 14, 15, 16 :: u8] < 5552
   \<and> adler32_neon [1, 2, 3, 4, 5, 6, 7, 8, 9, 10, 11, 12, 13, 14, 15, 16] = 0x03400089
   \<and> adler32_simple [1, 2, 3, 4, 5, 6, 7, 8, 9, 10, 11, 12, 13, 14, 15, 16] = 0x03400089"
proof -
  obtain r1 r2
    where res: "adler32_simple [1, 2, 3, 4, 5, 6, 7, 8, 9, 10, 11, 12, 13, 14, 15, 16] = pack r1 r2"
    and "(unat r1, unat r2)
         = foldl spec_step (1, 0)
             (map unat [1, 2, 3, 4, 5, 6, 7, 8, 9, 10, 11, 12, 13, 14, 15, 16 :: u8])"
    and "unat r1 < 65521" and "unat r2 < 65521"
    by (rule simple_spec)
  then have "(unat r1, unat r2) = (137, 832)" by (simp add: Let_def)
  from words_of_pair [OF this]
  have "adler32_simple [1, 2, 3, 4, 5, 6, 7, 8, 9, 10, 11, 12, 13, 14, 15, 16] = 0x03400089"
    by (simp add: res pack_def)
  with short_vector_input_is_scalar
          [of "[1, 2, 3, 4, 5, 6, 7, 8, 9, 10, 11, 12, 13, 14, 15, 16]"]
  show ?thesis by simp
qed

text \<open>
  C1: the vector engine and the scalar engine disagree on the buffer of 5552 bytes whose
  first byte is 1 and whose other bytes are 0: the vector engine returns \<open>0x20980002\<close>,
  the scalar engine \<open>0x2B600002\<close>.
\<close>

theorem vector_engine_differs_from_scalar:
  "adler32_neon (1 # replicate 5551 0) = 0x20980002
   \<and> adler32_simple (1 # replicate 5551 0) = 0x2B600002"
  by (simp add: simple_head_zeros neon_one_block BLOCK_SIZE_def superblock_step_words
      sums_head MOD_ADLER_def pack_def)

text \<open>
  C4: the vector engine does not fold the byte that follows a full super-block: on 5552
  zero bytes followed by one byte it returns \<open>0x15B00001\<close> whether that byte is 1 or 2,
  while the scalar engine returns \<open>0x15B20002\<close> when it is 1.
\<close>

theorem vector_engine_drops_trailing_byte:
  "adler32_neon (replicate 5552 0 @ [1]) = 0x15B00001
   \<and> adler32_neon (replicate 5552 0 @ [2]) = 0x15B00001
   \<and> adler32_simple (replicate 5552 0 @ [1]) = 0x15B20002"
  by (simp add: simple_zeros_one neon_one_block BLOCK_SIZE_def superblock_step_words
      sums_zeros MOD_ADLER_def pack_def)

text \<open>
  C5: the weighted sum of one chunk gives the bytes at positions 0 to 3 the weight 16, at
  positions 4 to 7 the weight 12, at positions 8 to 11 the weight 8 and at positions 12 to
  15 the weight 4 (the chunk with a single 1 at position \<open>k\<close> adds that weight), where the
  specification's \<open>16 - k\<close> gives 16, 15, ..., 1.  On the buffer of 5552 bytes that are 0
  except for a 1 at index 1, the weighted sum of the super-block is 16, not 15, and the
  engine returns \<open>0x20980002\<close>, its value for the 1 at index 0.
\<close>

theorem chunk_weights_are_per_quarter:
  "map (\<lambda>k. sum_list (snd (neon_chunk ((replicate 16 0)[k := 1]) (vdupq_n_u32 0, vdupq_n_u32 0))))
       [0..<16]
     = [16, 16, 16, 16, 12, 12, 12, 12, 8, 8, 8, 8, 4, 4, 4, 4]
   \<and> map (spec_weight 16) [0..<16] = [16, 15, 14, 13, 12, 11, 10, 9, 8, 7, 6, 5, 4, 3, 2, 1]
   \<and> block_s2_sum (0 # 1 # replicate 5550 0) 0 = 16
   \<and> adler32_neon (0 # 1 # replicate 5550 0) = 0x20980002"
proof -
  have "map (\<lambda>k. sum_list (snd (neon_chunk ((replicate 16 0)[k := 1])
                                  (vdupq_n_u32 0, vdupq_n_u32 0)))) [0..<16]
        = [16, 16, 16, 16, 12, 12, 12, 12, 8, 8, 8, 8, 4, 4, 4, 4]"
    unfolding upt16 by (simp add: neon_defs replicate4 numeral_eq_Suc)
  moreover have "map (spec_weight 16) [0..<16]
                 = [16, 15, 14, 13, 12, 11, 10, 9, 8, 7, 6, 5, 4, 3, 2, 1]"
    unfolding upt16 by (simp add: spec_weight_def)
  moreover have "adler32_neon (0 # 1 # replicate 5550 0) = 0x20980002"
    by (simp add: neon_one_block BLOCK_SIZE_def superblock_step_words sums_second
        MOD_ADLER_def pack_def)
  ultimately show ?thesis by (simp add: sums_second)
qed

text \<open>
  C6: the update of \<open>s2\<close> after a super-block does not read the entering \<open>s1\<close>.  On the
  buffer of 5552 bytes whose first byte is 2 and whose other bytes are 0, the super-block is
  entered with \<open>s1 = 1\<close> and \<open>s2 = 0\<close> and accumulates \<open>block_s1 = 2\<close> and
  \<open>block_s2 = 32\<close>; the engine assigns \<open>s1 = 3\<close> first and leaves \<open>s2 = 11135\<close>, where
  the specification's formula with the entering \<open>s1\<close> gives 31.  The engine returns
  \<open>0x2B7F0003\<close> and the scalar engine \<open>0x41100003\<close> (\<open>s2 = 16656\<close>).
\<close>

theorem s2_update_reads_updated_s1:
  "sum_list (fst (snd (chunk_loop (2 # replicate 5551 0) 0 BLOCK_SIZE
                         (vdupq_n_u32 0, vdupq_n_u32 0)))) = 2
   \<and> sum_list (snd (snd (chunk_loop (2 # replicate 5551 0) 0 BLOCK_SIZE
                         (vdupq_n_u32 0, vdupq_n_u32 0)))) = 32
   \<and> superblock_step (2 # replicate 5551 0) 0 (1, 0) = (5552, 3, 11135)
   \<and> spec_s2_update 0 32 5552 1 2 = 31
   \<and> int (unat (snd (snd (superblock_step (2 # replicate 5551 0) 0 (1, 0)))))
       \<noteq> spec_s2_update 0 32 5552 1 2
   \<and> adler32_neon (2 # replicate 5551 0) = 0x2B7F0003
   \<and> adler32_simple (2 # replicate 5551 0) = 0x41100003"
proof -
  obtain i' rs1 rs2 where loop:
    "chunk_loop (2 # replicate 5551 0) 0 BLOCK_SIZE (vdupq_n_u32 0, vdupq_n_u32 0) = (i', rs1, rs2)"
    by (cases "chunk_loop (2 # replicate 5551 0) 0 BLOCK_SIZE (vdupq_n_u32 0, vdupq_n_u32 0)")
  from chunk_loop_block(4,5) [OF loop]
  have sums: "sum_list rs1 = 2" "sum_list rs2 = 32" by (simp_all add: sums_head)
  have step: "superblock_step (2 # replicate 5551 0) 0 (1, 0) = (5552, 3, 11135)"
    by (simp add: superblock_step_words sums_head BLOCK_SIZE_def MOD_ADLER_def)
  have spec: "spec_s2_update 0 32 5552 1 2 = 31"
    by (simp add: spec_s2_update_def)
  have neon: "adler32_neon (2 # replicate 5551 0) = 0x2B7F0003"
    by (simp add: neon_one_block BLOCK_SIZE_def step pack_def)
  show ?thesis unfolding loop step spec neon simple_two_zeros using sums by simp
qed

end
